theory Spec2Isabelle
  imports Main "HOL-Library.Word"
begin

section \<open>Data model of the indexer's processing stage\<close>

type_synonym byte = "8 word"

text \<open>
  Errors are values. \<open>ExternalError\<close> stands for an error produced by a collaborator
  (bucket copy, go-git, the file system, the Storer); the other constructors are the
  errors the processing stage builds itself.
\<close>

datatype error =
    ExternalError string
  | FailedToOpenRepo error
  | UnknownRepositoryType
  | FailedToAcquireSemaphore error
  | ContextCanceled
  | ContextDeadlineExceeded

text \<open>
  go-git's checkout options. The processing stage only writes \<open>Force\<close>; the target
  commit is called \<open>Revision\<close> here.
\<close>

record CheckoutOptions =
  Revision :: "byte list"
  Branch :: string
  Create :: bool
  Force :: bool
  Keep :: bool

text \<open>
  \<open>preparation.Result\<close>, the work item. The fields are the ones the processing stage and
  the storage test read: name, repository type, commit, checkout options, file extensions.
  Items and their checkout options are reached through pointers that are not nil.
\<close>

record Result =
  Name :: string
  Type :: string
  Commit :: "byte list"
  CheckoutOptions :: CheckoutOptions
  FileExts :: "string list"

definition Git :: string where
  "Git = ''GIT''"

record FileResult =
  Path :: string
  HashType :: string
  Hash :: "byte list"

section \<open>Paths and the working tree\<close>

text \<open>
  \<open>filepath.Ext\<close>: scan the path from its end towards the last separator; the extension
  is the suffix starting at the last dot of the final element, and empty without a dot.
  \<open>extScan\<close> walks the reversed path and collects the characters already passed.
\<close>

fun extScan :: "string \<Rightarrow> string \<Rightarrow> string" where
  "extScan [] acc = []"
| "extScan (c # cs) acc =
     (if c = CHR ''/'' then []
      else if c = CHR ''.'' then c # acc
      else extScan cs (c # acc))"

definition Ext :: "string \<Rightarrow> string" where
  "Ext p = extScan (rev p) []"

text \<open>
  \<open>filepath.Join\<close> of a clean directory path and one entry name, as \<open>filepath.Walk\<close>
  calls it for every name of a directory.
\<close>

definition Join :: "string \<Rightarrow> string \<Rightarrow> string" where
  "Join dir name = dir @ ''/'' @ name"

text \<open>
  The materialised working tree. A \<open>File\<close> is any entry that is not a directory (a
  regular file, or a symbolic link, which \<open>filepath.Walk\<close> does not follow); its content
  is \<open>None\<close> when \<open>os.ReadFile\<close> fails on it. A \<open>Dir\<close> lists its entries in the order
  \<open>filepath.Walk\<close> visits them; a directory that cannot be listed is passed over by the
  walk function like one without entries. Every listed entry can be looked up: the walk
  function does not test the error it is handed.
\<close>

datatype node = File "byte list option" | Dir "(string \<times> node) list"

text \<open>What the walk function is told about an entry: \<open>info.IsDir()\<close> and what a read gives.\<close>

datatype info = IsDir | NotDir "byte list option"

text \<open>
  The calls \<open>filepath.Walk\<close> makes, in order: the entry itself, then, for a directory,
  every entry below it, each under the joined path.
\<close>

fun entries :: "string \<Rightarrow> node \<Rightarrow> (string \<times> info) list" where
  "entries p (File c) = [(p, NotDir c)]"
| "entries p (Dir kids) =
     (p, IsDir) # concat (map (\<lambda>k. entries (Join p (fst k)) (snd k)) kids)"

text \<open>
  \<open>filepath.Walk root fn\<close> with a walk function that returns nil or an error that is
  not \<open>SkipDir\<close>: the function is called on each entry in turn, it threads the
  captured variable it appends to, and the first error ends the walk.
\<close>

fun walkCalls ::
  "(string \<Rightarrow> info \<Rightarrow> 'a \<Rightarrow> error + 'a) \<Rightarrow> (string \<times> info) list \<Rightarrow> 'a \<Rightarrow> error + 'a" where
  "walkCalls fn [] acc = Inr acc"
| "walkCalls fn (e # es) acc =
     (case fn (fst e) (snd e) acc of
        Inl err \<Rightarrow> Inl err
      | Inr acc' \<Rightarrow> walkCalls fn es acc')"

definition Walk ::
  "string \<Rightarrow> node \<Rightarrow> (string \<Rightarrow> info \<Rightarrow> 'a \<Rightarrow> error + 'a) \<Rightarrow> 'a \<Rightarrow> error + 'a" where
  "Walk root tree fn acc = walkCalls fn (entries root tree) acc"

section \<open>The hashing pass of processGit\<close>

text \<open>
  The loop \<open>for _, ext := range repoInfo.FileExts\<close> of the walk function: for every
  extension equal to \<open>filepath.Ext(p)\<close> the file is read, hashed and appended; a failed
  read returns the error. The loop has no break.
\<close>

fun extLoop ::
  "(byte list \<Rightarrow> byte list) \<Rightarrow> string \<Rightarrow> byte list option \<Rightarrow> string list \<Rightarrow>
   FileResult list \<Rightarrow> error + FileResult list" where
  "extLoop md5 p c [] fileResults = Inr fileResults"
| "extLoop md5 p c (ext # exts) fileResults =
     (if Ext p = ext then
        (case c of
           None \<Rightarrow> Inl (ExternalError p)
         | Some buf \<Rightarrow>
             extLoop md5 p c exts
               (fileResults @ [\<lparr>Path = p, HashType = ''MD5'', Hash = md5 buf\<rparr>]))
      else extLoop md5 p c exts fileResults)"

text \<open>The walk function of processGit: directories return nil at once.\<close>

fun walkFn ::
  "(byte list \<Rightarrow> byte list) \<Rightarrow> string list \<Rightarrow> string \<Rightarrow> info \<Rightarrow>
   FileResult list \<Rightarrow> error + FileResult list" where
  "walkFn md5 exts p IsDir fileResults = Inr fileResults"
| "walkFn md5 exts p (NotDir c) fileResults = extLoop md5 p c exts fileResults"

section \<open>processGit\<close>

text \<open>
  The collaborators of the stage: the bucket copy, go-git (open, worktree, checkout, which
  yields the working tree under the repository directory), the MD5 digest and the Storer.
\<close>

record env =
  CopyFromBucket :: "string \<Rightarrow> error + string"
  PlainOpen :: "string \<Rightarrow> error option"
  Worktree :: "string \<Rightarrow> error option"
  Checkout :: "string \<Rightarrow> CheckoutOptions \<Rightarrow> error + node"
  md5Sum :: "byte list \<Rightarrow> byte list"
  Store :: "Result \<Rightarrow> FileResult list \<Rightarrow> error option"

text \<open>The effects that outlive a call: the calls made to the Storer, the directories removed.\<close>

record world =
  storeCalls :: "(Result \<times> FileResult list) list"
  removedDirs :: "string list"

text \<open>
  After a successful copy the deferred \<open>os.RemoveAll(repoDir)\<close> runs on every path out of
  the function. The work item is reached through a pointer, so the assignment to
  \<open>CheckoutOptions.Force\<close> is returned with the result.
\<close>

definition afterCopy :: "env \<Rightarrow> string \<Rightarrow> Result \<Rightarrow> world \<Rightarrow> error option \<times> Result \<times> world" where
  "afterCopy E repoDir repoInfo w =
     (case PlainOpen E repoDir of
        Some err \<Rightarrow> (Some (FailedToOpenRepo err), repoInfo, w)
      | None \<Rightarrow>
     (case Worktree E repoDir of
        Some err \<Rightarrow> (Some err, repoInfo, w)
      | None \<Rightarrow>
     (let repoInfo' = repoInfo\<lparr>CheckoutOptions := (CheckoutOptions repoInfo)\<lparr>Force := True\<rparr>\<rparr> in
      case Checkout E repoDir (CheckoutOptions repoInfo') of
        Inl err \<Rightarrow> (Some err, repoInfo', w)
      | Inr tree \<Rightarrow>
     (case Walk repoDir tree (walkFn (md5Sum E) (FileExts repoInfo')) [] of
        Inl err \<Rightarrow> (Some err, repoInfo', w)
      | Inr fileResults \<Rightarrow>
          (Store E repoInfo' fileResults, repoInfo',
           w\<lparr>storeCalls := storeCalls w @ [(repoInfo', fileResults)]\<rparr>)))))"

definition processGit :: "env \<Rightarrow> Result \<Rightarrow> world \<Rightarrow> error option \<times> Result \<times> world" where
  "processGit E repoInfo w =
     (case CopyFromBucket E (Name repoInfo) of
        Inl err \<Rightarrow> (Some err, repoInfo, w)
      | Inr repoDir \<Rightarrow>
          (case afterCopy E repoDir repoInfo w of
             (err, repoInfo', w') \<Rightarrow>
               (err, repoInfo', w'\<lparr>removedDirs := removedDirs w' @ [repoDir]\<rparr>)))"

section \<open>Stage.Run\<close>

definition workers :: nat where
  "workers = 25"

text \<open>The body of the goroutine up to its error value: the switch on the repository type.\<close>

definition workerBody :: "env \<Rightarrow> Result \<Rightarrow> world \<Rightarrow> error option \<times> Result \<times> world" where
  "workerBody E repoInfo w =
     (if Type repoInfo = Git then processGit E repoInfo w
      else (Some UnknownRepositoryType, repoInfo, w))"

text \<open>
  Where the coordinator stands: before \<open>sem.Acquire(ctx, 1)\<close>, in the select, in the final
  \<open>sem.Acquire(ctx, workers)\<close>, or returned with its result.
\<close>

datatype loc = AtAcquire | AtSelect | AtDrain | Returned "error option"

text \<open>
  A goroutine is processing its item, or blocked on \<open>wErr <- err\<close>, or about to run its
  deferred \<open>sem.Release(1)\<close>.
\<close>

datatype phase = Processing | Posting error | Releasing

record run =
  loc :: loc
  cur :: nat
  wErr :: "error list"
  input :: "Result list"
  closed :: bool
  ctxErr :: "error option"
  goroutines :: "(Result \<times> phase) list"
  logged :: "error list"
  world :: world

definition initial :: "world \<Rightarrow> run" where
  "initial w =
     \<lparr>loc = AtAcquire, cur = 0, wErr = [], input = [], closed = False, ctxErr = None,
      goroutines = [], logged = [], world = w\<rparr>"

text \<open>
  The rest of a loop iteration after the select: \<open>if !ok { break }\<close>, then the
  \<open>go\<close> statement. \<open>repoInfo\<close> and \<open>ok\<close> are the variables declared before the select,
  nil and false unless the input case assigns them.
\<close>

definition afterSelect :: "Result option \<Rightarrow> bool \<Rightarrow> run \<Rightarrow> run" where
  "afterSelect repoInfo ok s =
     (if \<not> ok then s\<lparr>loc := AtDrain\<rparr>
      else case repoInfo of
             None \<Rightarrow> s\<lparr>loc := AtAcquire\<rparr>
           | Some r \<Rightarrow> s\<lparr>loc := AtAcquire, goroutines := goroutines s @ [(r, Processing)]\<rparr>)"

text \<open>
  The atomic steps of a run. The first three belong to the surroundings: the producer
  sends an item or closes the channel, the context is cancelled. The others are the
  coordinator's (\<open>sem.Acquire\<close> succeeding or returning the context's error, the three
  cases of the select, the final acquisition) and those of goroutine number \<open>i\<close>.
\<close>

datatype action =
    Send Result
  | Close
  | Cancel error
  | Acquire
  | AcquireFails
  | RecvInput
  | RecvErr
  | CtxDone
  | DrainAcquire
  | DrainFails
  | Work nat
  | Post nat
  | Release nat

text \<open>
  \<open>fire E a s\<close> is the state after step \<open>a\<close>, and \<open>None\<close> when \<open>a\<close> cannot happen in \<open>s\<close>
  (the statement blocks, or it is not the one the coordinator or goroutine is at).
  The semaphore holds \<open>cur\<close> of its \<open>workers\<close> units: an acquisition of \<open>n\<close> units
  succeeds when \<open>n\<close> units are free, and returns the context's error once the context is
  done. \<open>wErr\<close> is buffered to \<open>workers\<close>, so a goroutine posts only while there is room.
  The select takes any of its cases that is ready. A goroutine runs its body in one step,
  then posts its error if it has one, then runs the deferred release.
\<close>

fun fire :: "env \<Rightarrow> action \<Rightarrow> run \<Rightarrow> run option" where
  "fire E (Send r) s =
     (if closed s then None else Some (s\<lparr>input := input s @ [r]\<rparr>))"
| "fire E Close s =
     (if closed s then None else Some (s\<lparr>closed := True\<rparr>))"
| "fire E (Cancel e) s =
     (if ctxErr s = None then Some (s\<lparr>ctxErr := Some e\<rparr>) else None)"
| "fire E Acquire s =
     (if loc s = AtAcquire \<and> cur s + 1 \<le> workers
      then Some (s\<lparr>cur := cur s + 1, loc := AtSelect\<rparr>) else None)"
| "fire E AcquireFails s =
     (if loc s = AtAcquire then
        (case ctxErr s of
           None \<Rightarrow> None
         | Some e \<Rightarrow> Some (s\<lparr>loc := Returned (Some (FailedToAcquireSemaphore e))\<rparr>))
      else None)"
| "fire E RecvInput s =
     (if loc s = AtSelect then
        (case input s of
           r # rest \<Rightarrow> Some (afterSelect (Some r) True (s\<lparr>input := rest\<rparr>))
         | [] \<Rightarrow> if closed s then Some (afterSelect None False s) else None)
      else None)"
| "fire E RecvErr s =
     (if loc s = AtSelect then
        (case wErr s of
           [] \<Rightarrow> None
         | err # rest \<Rightarrow>
             Some (afterSelect None False (s\<lparr>wErr := rest, logged := logged s @ [err]\<rparr>)))
      else None)"
| "fire E CtxDone s =
     (if loc s = AtSelect \<and> ctxErr s \<noteq> None
      then Some (s\<lparr>loc := Returned (Some ContextCanceled)\<rparr>) else None)"
| "fire E DrainAcquire s =
     (if loc s = AtDrain \<and> cur s + workers \<le> workers
      then Some (s\<lparr>cur := cur s + workers, loc := Returned None\<rparr>) else None)"
| "fire E DrainFails s =
     (if loc s = AtDrain then
        (case ctxErr s of
           None \<Rightarrow> None
         | Some e \<Rightarrow> Some (s\<lparr>loc := Returned (Some e)\<rparr>))
      else None)"
| "fire E (Work i) s =
     (if i < length (goroutines s) \<and> snd (goroutines s ! i) = Processing then
        (case workerBody E (fst (goroutines s ! i)) (world s) of
           (err, repoInfo', w') \<Rightarrow>
             Some (s\<lparr>goroutines :=
                       (goroutines s)[i := (repoInfo',
                          case err of None \<Rightarrow> Releasing | Some e \<Rightarrow> Posting e)],
                     world := w'\<rparr>))
      else None)"
| "fire E (Post i) s =
     (if i < length (goroutines s) \<and> length (wErr s) < workers then
        (case snd (goroutines s ! i) of
           Posting e \<Rightarrow>
             Some (s\<lparr>wErr := wErr s @ [e],
                     goroutines := (goroutines s)[i := (fst (goroutines s ! i), Releasing)]\<rparr>)
         | _ \<Rightarrow> None)
      else None)"
| "fire E (Release i) s =
     (if i < length (goroutines s) \<and> snd (goroutines s ! i) = Releasing
      then Some (s\<lparr>cur := cur s - 1,
                   goroutines := take i (goroutines s) @ drop (Suc i) (goroutines s)\<rparr>)
      else None)"

text \<open>A schedule is a list of steps; \<open>exec\<close> runs it and is \<open>None\<close> when a step cannot happen.\<close>

fun exec :: "env \<Rightarrow> action list \<Rightarrow> run \<Rightarrow> run option" where
  "exec E [] s = Some s"
| "exec E (a # as) s = (case fire E a s of None \<Rightarrow> None | Some s' \<Rightarrow> exec E as s')"

section \<open>The sibling walk of the indexer API caller\<close>

text \<open>
  \<open>strings.ReplaceAll s old new\<close>. \<open>replaceFrom\<close> is the scan for a non-empty \<open>old\<close>:
  occurrences are taken from the left and do not overlap. For an empty \<open>old\<close> Go puts
  \<open>new\<close> before every character and at the end.
\<close>

function replaceFrom :: "string \<Rightarrow> string \<Rightarrow> string \<Rightarrow> string" where
  "replaceFrom s old new =
     (if old = [] \<or> s = [] then s
      else if take (length old) s = old then new @ replaceFrom (drop (length old) s) old new
      else hd s # replaceFrom (tl s) old new)"
  by pat_completeness auto
termination
  by (relation "measure (\<lambda>(s, old, new). length s)") auto

definition ReplaceAll :: "string \<Rightarrow> string \<Rightarrow> string \<Rightarrow> string" where
  "ReplaceAll s old new =
     (if old = new then s
      else if old = [] then new @ concat (map (\<lambda>c. c # new) s)
      else replaceFrom s old new)"

text \<open>\<open>FileResult\<close> of the caller tool: a path and a digest.\<close>

record ToolFileResult =
  ToolPath :: string
  ToolHash :: "byte list"

definition fileExts :: "string list" where
  "fileExts = [''.hpp'', ''.h'', ''.hh'', ''.cc'', ''.c'', ''.cpp'']"

fun toolExtLoop ::
  "(byte list \<Rightarrow> byte list) \<Rightarrow> string \<Rightarrow> string \<Rightarrow> byte list option \<Rightarrow> string list \<Rightarrow>
   ToolFileResult list \<Rightarrow> error + ToolFileResult list" where
  "toolExtLoop md5 repoDir p c [] fileResults = Inr fileResults"
| "toolExtLoop md5 repoDir p c (ext # exts) fileResults =
     (if Ext p = ext then
        (case c of
           None \<Rightarrow> Inl (ExternalError p)
         | Some buf \<Rightarrow>
             toolExtLoop md5 repoDir p c exts
               (fileResults @ [\<lparr>ToolPath = ReplaceAll p repoDir [], ToolHash = md5 buf\<rparr>]))
      else toolExtLoop md5 repoDir p c exts fileResults)"

fun toolWalkFn ::
  "(byte list \<Rightarrow> byte list) \<Rightarrow> string \<Rightarrow> string \<Rightarrow> info \<Rightarrow>
   ToolFileResult list \<Rightarrow> error + ToolFileResult list" where
  "toolWalkFn md5 repoDir p IsDir fileResults = Inr fileResults"
| "toolWalkFn md5 repoDir p (NotDir c) fileResults =
     toolExtLoop md5 repoDir p c fileExts fileResults"

text \<open>\<open>buildFileHashes\<close> over the tree found under \<open>repoDir\<close>; a failed walk panics (\<open>Inl\<close>).\<close>

definition buildFileHashes ::
  "(byte list \<Rightarrow> byte list) \<Rightarrow> string \<Rightarrow> node \<Rightarrow> error + ToolFileResult list" where
  "buildFileHashes md5 repoDir tree = Walk repoDir tree (toolWalkFn md5 repoDir) []"

section \<open>The stored document\<close>







section \<open>What the hashing pass yields, entry by entry\<close>

text \<open>
  The digests one entry of the traversal adds when it can be read: nothing for a
  directory, and for a file one record for each occurrence of its extension in the list.
\<close>

definition digestsOf ::
  "(byte list \<Rightarrow> byte list) \<Rightarrow> string list \<Rightarrow> string \<times> info \<Rightarrow> FileResult list" where
  "digestsOf md5 exts e =
     (case snd e of
        IsDir \<Rightarrow> []
      | NotDir None \<Rightarrow> []
      | NotDir (Some buf) \<Rightarrow>
          replicate (count_list exts (Ext (fst e)))
            \<lparr>Path = fst e, HashType = ''MD5'', Hash = md5 buf\<rparr>)"

text \<open>An entry whose read fails during the pass: a matched file that cannot be read.\<close>

definition unreadable :: "string list \<Rightarrow> string \<times> info \<Rightarrow> bool" where
  "unreadable exts e = (snd e = NotDir None \<and> Ext (fst e) \<in> set exts)"

section \<open>A small repository used to run the model\<close>

definition sampleTree :: node where
  "sampleTree =
     Dir [(''a.c'', File (Some [1, 2, 3])),
          (''docs'', Dir [(''b.h'', File (Some []))]),
          (''x.txt'', File None)]"

definition sizeDigest :: "byte list \<Rightarrow> byte list" where
  "sizeDigest buf = [of_nat (length buf)]"

definition sampleCopy :: "string \<Rightarrow> error + string" where
  "sampleCopy name = Inr (''/tmp/'' @ name)"

definition sampleOpen :: "string \<Rightarrow> error option" where
  "sampleOpen dir = None"

definition sampleCheckout :: "string \<Rightarrow> CheckoutOptions \<Rightarrow> error + node" where
  "sampleCheckout dir opts = Inr sampleTree"

definition sampleStore :: "Result \<Rightarrow> FileResult list \<Rightarrow> error option" where
  "sampleStore repoInfo fileResults = None"

definition sampleEnv :: env where
  "sampleEnv =
     \<lparr>CopyFromBucket = sampleCopy, PlainOpen = sampleOpen, Worktree = sampleOpen,
      Checkout = sampleCheckout, md5Sum = sizeDigest, Store = sampleStore\<rparr>"

definition sampleOptions :: CheckoutOptions where
  "sampleOptions =
     \<lparr>Revision = [0x41, 0x41, 0x41, 0x41], Branch = [], Create = False, Force = False,
      Keep = False\<rparr>"

definition sampleItem :: "string list \<Rightarrow> Result" where
  "sampleItem exts =
     \<lparr>Name = ''abc'', Type = Git, Commit = [0x41, 0x41, 0x41, 0x41],
      CheckoutOptions = sampleOptions, FileExts = exts\<rparr>"

definition otherItem :: Result where
  "otherItem =
     \<lparr>Name = ''svn'', Type = ''SVN'', Commit = [], CheckoutOptions = sampleOptions,
      FileExts = []\<rparr>"

definition emptyWorld :: world where
  "emptyWorld = \<lparr>storeCalls = [], removedDirs = []\<rparr>"

section \<open>The semaphore account of a run\<close>

text \<open>
  The units of the semaphore the coordinator itself holds: the one it acquired at the top
  of the iteration is still its own in the select and, after a break, in the final
  acquisition. Each goroutine holds the unit of the iteration that launched it.
\<close>

fun held :: "loc \<Rightarrow> nat" where
  "held AtAcquire = 0"
| "held AtSelect = 1"
| "held AtDrain = 1"
| "held (Returned r) = 0"

text \<open>The account of the semaphore: the units in use cover the goroutines and the coordinator.\<close>

definition slots :: "run \<Rightarrow> bool" where
  "slots s = (length (goroutines s) + held (loc s) \<le> cur s \<and> cur s \<le> workers)"

text \<open>The coordinator has left the admission loop.\<close>

definition leftLoop :: "run \<Rightarrow> bool" where
  "leftLoop s = (case loc s of AtAcquire \<Rightarrow> False | AtSelect \<Rightarrow> False | AtDrain \<Rightarrow> True | Returned r \<Rightarrow> True)"

text \<open>
  Three states of a run over the sample repository: an error waits in \<open>wErr\<close> while an item
  waits on the input channel; the final acquisition with a goroutine still at work and the
  context cancelled; the final acquisition with no goroutine left.
\<close>

definition errorPending :: run where
  "errorPending =
     \<lparr>loc = AtSelect, cur = 2, wErr = [UnknownRepositoryType], input = [sampleItem [''.c'']],
      closed = False, ctxErr = None, goroutines = [(otherItem, Releasing)], logged = [],
      world = emptyWorld\<rparr>"

definition draining :: run where
  "draining =
     \<lparr>loc = AtDrain, cur = 2, wErr = [], input = [], closed = True,
      ctxErr = Some ContextCanceled, goroutines = [(sampleItem [''.c''], Processing)],
      logged = [], world = emptyWorld\<rparr>"

definition drainedIdle :: run where
  "drainedIdle =
     \<lparr>loc = AtDrain, cur = 1, wErr = [], input = [], closed = True, ctxErr = None,
      goroutines = [], logged = [], world = emptyWorld\<rparr>"

section \<open>Properties of the hashing pass\<close>

lemma extLoop_Some:
  "extLoop md5 p (Some buf) exts acc =
     Inr (acc @ replicate (count_list exts (Ext p)) \<lparr>Path = p, HashType = ''MD5'', Hash = md5 buf\<rparr>)"
  by (induction exts arbitrary: acc) (simp_all add: replicate_append_same)

lemma extLoop_None:
  "extLoop md5 p None exts acc = (if Ext p \<in> set exts then Inl (ExternalError p) else Inr acc)"
  by (induction exts arbitrary: acc) auto

lemma walkFn_step:
  "walkFn md5 exts p i acc =
     (if unreadable exts (p, i) then Inl (ExternalError p) else Inr (acc @ digestsOf md5 exts (p, i)))"
proof (cases i)
  case IsDir
  then show ?thesis by (simp add: unreadable_def digestsOf_def)
next
  case (NotDir c)
  then show ?thesis
    by (cases c) (simp_all add: unreadable_def digestsOf_def extLoop_None extLoop_Some)
qed

lemma walkCalls_ok:
  "\<forall>e \<in> set es. \<not> unreadable exts e \<Longrightarrow>
   walkCalls (walkFn md5 exts) es acc = Inr (acc @ concat (map (digestsOf md5 exts) es))"
  by (induction es arbitrary: acc) (simp_all add: walkFn_step)

lemma walkCalls_fail:
  "\<exists>e \<in> set es. unreadable exts e \<Longrightarrow> \<exists>err. walkCalls (walkFn md5 exts) es acc = Inl err"
  by (induction es arbitrary: acc) (auto simp add: walkFn_step)

lemma walkCalls_Inr:
  assumes "walkCalls (walkFn md5 exts) es acc = Inr rs"
  shows "(\<forall>e \<in> set es. \<not> unreadable exts e) \<and> rs = acc @ concat (map (digestsOf md5 exts) es)"
proof -
  have ok: "\<forall>e \<in> set es. \<not> unreadable exts e"
    using assms walkCalls_fail[of es exts md5 acc] by auto
  with assms walkCalls_ok[of es exts md5 acc] show ?thesis by simp
qed

lemma digestsOf_nonempty:
  "\<not> unreadable exts e \<Longrightarrow>
   digestsOf md5 exts e \<noteq> [] \<longleftrightarrow> snd e \<noteq> IsDir \<and> Ext (fst e) \<in> set exts"
  by (cases e) (auto simp add: digestsOf_def unreadable_def count_list_0_iff split: info.splits option.splits)

lemma digestsOf_Path: "fr \<in> set (digestsOf md5 exts e) \<Longrightarrow> Path fr = fst e"
  by (auto simp add: digestsOf_def split: info.splits option.splits)

lemma count_list_replicate:
  "count_list (replicate k y) x = (if x = y then k else 0)"
  by (induction k) auto

lemma distinct_count_le_1: "distinct ys \<Longrightarrow> count_list ys y \<le> 1"
  by (induction ys) auto

lemma digestsOf_distinct:
  "distinct exts \<Longrightarrow> distinct (digestsOf md5 exts e)"
proof -
  assume d: "distinct exts"
  have "count_list exts x \<le> 1" for x :: string
    using d by (induction exts) auto
  then have "count_list exts (Ext (fst e)) = 0 \<or> count_list exts (Ext (fst e)) = 1"
    by (metis le_zero_eq less_one linorder_neqE_nat not_less)
  then show ?thesis
    by (auto simp add: digestsOf_def split: info.splits option.splits)
qed

lemma concat_digests_Path:
  "fr \<in> set (concat (map (digestsOf md5 exts) es)) \<Longrightarrow> Path fr \<in> fst ` set es"
  by (auto dest: digestsOf_Path)

lemma concat_digests_distinct:
  "distinct exts \<Longrightarrow> distinct (map fst es) \<Longrightarrow> distinct (concat (map (digestsOf md5 exts) es))"
proof (induction es)
  case Nil
  then show ?case by simp
next
  case (Cons e es)
  have "set (digestsOf md5 exts e) \<inter> set (concat (map (digestsOf md5 exts) es)) = {}"
  proof (rule ccontr)
    assume "\<not> ?thesis"
    then obtain fr where a: "fr \<in> set (digestsOf md5 exts e)"
      and b: "fr \<in> set (concat (map (digestsOf md5 exts) es))" by blast
    from a have "Path fr = fst e" by (rule digestsOf_Path)
    moreover from b have "Path fr \<in> fst ` set es" by (rule concat_digests_Path)
    ultimately show False using Cons.prems(2) by simp
  qed
  with Cons show ?case by (simp add: digestsOf_distinct)
qed

lemma concat_digests_repeated:
  assumes "e \<in> set es" "digestsOf md5 exts e = replicate k x" "2 \<le> k"
  shows "\<not> distinct (concat (map (digestsOf md5 exts) es))"
proof
  assume d: "distinct (concat (map (digestsOf md5 exts) es))"
  have "count_list (concat (map (digestsOf md5 exts) es)) x \<ge> count_list (digestsOf md5 exts e) x"
    using assms(1) by (induction es) (auto simp add: count_list_concat)
  then have "2 \<le> count_list (concat (map (digestsOf md5 exts) es)) x"
    using assms(2,3) by (simp add: count_list_replicate)
  moreover have "count_list (concat (map (digestsOf md5 exts) es)) x \<le> 1"
    using d by (rule distinct_count_le_1)
  ultimately show False by simp
qed

lemma concat_digests_count:
  assumes "distinct (map fst es)" "(p, NotDir (Some buf)) \<in> set es"
  shows "count_list (concat (map (digestsOf md5 exts) es))
           \<lparr>Path = p, HashType = ''MD5'', Hash = md5 buf\<rparr> = count_list exts (Ext p)"
  using assms
proof (induction es)
  case Nil
  then show ?case by simp
next
  case (Cons e es)
  let ?x = "\<lparr>Path = p, HashType = ''MD5'', Hash = md5 buf\<rparr>"
  show ?case
  proof (cases "e = (p, NotDir (Some buf))")
    case True
    then have "p \<notin> fst ` set es" using Cons.prems(1) by auto
    then have "?x \<notin> set (concat (map (digestsOf md5 exts) es))"
      using concat_digests_Path[of ?x md5 exts es] by auto
    then have "count_list (concat (map (digestsOf md5 exts) es)) ?x = 0"
      by (simp add: count_list_0_iff)
    moreover have "digestsOf md5 exts e = replicate (count_list exts (Ext p)) ?x"
      using True by (simp add: digestsOf_def)
    ultimately show ?thesis by (simp add: count_list_replicate)
  next
    case False
    then have mem: "(p, NotDir (Some buf)) \<in> set es" using Cons.prems(2) by simp
    then have "p \<in> fst ` set es" by force
    then have "fst e \<noteq> p" using Cons.prems(1) by auto
    then have "?x \<notin> set (digestsOf md5 exts e)"
      using digestsOf_Path[of ?x md5 exts e] by auto
    then have "count_list (digestsOf md5 exts e) ?x = 0"
      by (simp add: count_list_0_iff)
    then show ?thesis using Cons.IH mem Cons.prems(1) by simp
  qed
qed

lemma sample_entries:
  "entries ''/tmp/abc'' sampleTree =
     [(''/tmp/abc'', IsDir),
      (''/tmp/abc/a.c'', NotDir (Some [1, 2, 3])),
      (''/tmp/abc/docs'', IsDir),
      (''/tmp/abc/docs/b.h'', NotDir (Some [])),
      (''/tmp/abc/x.txt'', NotDir None)]"
  by (simp add: sampleTree_def Join_def)

lemma sample_Ext:
  "Ext ''/tmp/abc'' = []" "Ext ''/tmp/abc/a.c'' = ''.c''" "Ext ''/tmp/abc/docs'' = []"
  "Ext ''/tmp/abc/docs/b.h'' = ''.h''" "Ext ''/tmp/abc/x.txt'' = ''.txt''"
  by (simp_all add: Ext_def)

lemma sample_Walk:
  "Walk ''/tmp/abc'' sampleTree (walkFn sizeDigest [''.c'', ''.h'']) [] =
     Inr [\<lparr>Path = ''/tmp/abc/a.c'', HashType = ''MD5'', Hash = [3]\<rparr>,
          \<lparr>Path = ''/tmp/abc/docs/b.h'', HashType = ''MD5'', Hash = [0]\<rparr>]"
  by (simp add: Walk_def sample_entries sample_Ext sizeDigest_def)

text \<open>
  Claim C8 (extension filtering). When the hashing pass succeeds, the digest list is the
  concatenation, in traversal order, of what each entry yields; an entry yields a digest
  exactly when it is not a directory and its \<open>filepath.Ext\<close> is in the item's extension
  list (compared as strings, so case-sensitively); the paths of the digest list are the
  paths of the matched non-directory entries; the walk function returns nil on a
  directory and on a file whose extension does not match, without adding anything.
\<close>

theorem extension_filtering:
  assumes "Walk root tree (walkFn md5 exts) [] = Inr fileResults"
  shows "fileResults = concat (map (digestsOf md5 exts) (entries root tree)) \<and>
         (\<forall>e \<in> set (entries root tree).
            digestsOf md5 exts e \<noteq> [] \<longleftrightarrow> snd e \<noteq> IsDir \<and> Ext (fst e) \<in> set exts) \<and>
         Path ` set fileResults =
           {p. \<exists>c. (p, NotDir c) \<in> set (entries root tree) \<and> Ext p \<in> set exts} \<and>
         (\<forall>p acc. walkFn md5 exts p IsDir acc = Inr acc) \<and>
         (\<forall>p c acc. Ext p \<notin> set exts \<longrightarrow> walkFn md5 exts p (NotDir c) acc = Inr acc)"
proof -
  let ?es = "entries root tree"
  from assms have w: "walkCalls (walkFn md5 exts) ?es [] = Inr fileResults"
    by (simp add: Walk_def)
  from walkCalls_Inr[OF w] have ok: "\<forall>e \<in> set ?es. \<not> unreadable exts e"
    and eq: "fileResults = concat (map (digestsOf md5 exts) ?es)" by simp_all
  have each: "\<forall>e \<in> set ?es.
      digestsOf md5 exts e \<noteq> [] \<longleftrightarrow> snd e \<noteq> IsDir \<and> Ext (fst e) \<in> set exts"
    using ok digestsOf_nonempty by blast
  have paths: "Path ` set fileResults =
      {p. \<exists>c. (p, NotDir c) \<in> set ?es \<and> Ext p \<in> set exts}" (is "?L = ?R")
  proof (rule set_eqI)
    fix p
    show "p \<in> ?L \<longleftrightarrow> p \<in> ?R"
    proof
      assume "p \<in> ?L"
      then obtain fr e where fr: "Path fr = p" "e \<in> set ?es" "fr \<in> set (digestsOf md5 exts e)"
        using eq by auto
      then have ne: "digestsOf md5 exts e \<noteq> []" by auto
      with each fr(2) have "snd e \<noteq> IsDir" "Ext (fst e) \<in> set exts" by auto
      moreover have "fst e = p" using digestsOf_Path[OF fr(3)] fr(1) by simp
      moreover obtain c where "snd e = NotDir c" using \<open>snd e \<noteq> IsDir\<close> by (cases "snd e") auto
      ultimately have "(p, NotDir c) \<in> set ?es \<and> Ext p \<in> set exts"
        using fr(2) by (metis prod.collapse)
      then show "p \<in> ?R" by blast
    next
      assume "p \<in> ?R"
      then obtain c where c: "(p, NotDir c) \<in> set ?es" "Ext p \<in> set exts" by blast
      with each have "digestsOf md5 exts (p, NotDir c) \<noteq> []" by fastforce
      then obtain fr where fr: "fr \<in> set (digestsOf md5 exts (p, NotDir c))"
        by (meson last_in_set)
      then have "Path fr = p" using digestsOf_Path by fastforce
      moreover have "fr \<in> set fileResults" using eq c(1) fr by auto
      ultimately show "p \<in> ?L" by blast
    qed
  qed
  have skip: "\<forall>p c acc. Ext p \<notin> set exts \<longrightarrow> walkFn md5 exts p (NotDir c) acc = Inr acc"
    by (simp add: walkFn_step unreadable_def digestsOf_def count_list_0_iff
        split: option.splits)
  show ?thesis using eq each paths skip by simp
qed

theorem extension_filtering_witness:
  "Walk ''/tmp/abc'' sampleTree (walkFn sizeDigest [''.c'', ''.h'']) [] =
     Inr [\<lparr>Path = ''/tmp/abc/a.c'', HashType = ''MD5'', Hash = [3]\<rparr>,
          \<lparr>Path = ''/tmp/abc/docs/b.h'', HashType = ''MD5'', Hash = [0]\<rparr>] \<and>
   {''/tmp/abc/a.c'', ''/tmp/abc/docs/b.h''} =
     {p. \<exists>c. (p, NotDir c) \<in> set (entries ''/tmp/abc'' sampleTree) \<and>
              Ext p \<in> set [''.c'', ''.h'']}"
  using extension_filtering [OF sample_Walk] sample_Walk by simp

lemma sample_Walk_go:
  "Walk ''/tmp/abc'' sampleTree (walkFn sizeDigest [''.go'', ''.go'']) [] = Inr []"
  by (simp add: Walk_def sample_entries sample_Ext sizeDigest_def)

text \<open>
  Claim C10, as stated, fails in its last clause: with the extension \<open>.go\<close> listed twice
  and no file of that extension in the tree, the digest list is empty, hence free of
  duplicates, although the extension list is not.
\<close>

theorem duplicate_free_output_counterexample:
  "Walk ''/tmp/abc'' sampleTree (walkFn sizeDigest [''.go'', ''.go'']) [] = Inr [] \<and>
   distinct ([] :: FileResult list) \<and> \<not> distinct [''.go'', ''.go'']"
  by (simp add: sample_Walk_go)

text \<open>
  Claim C10, amended. The loop over the extension list does not stop at the first match:
  under a successful pass a file whose extension occurs \<open>k\<close> times in the list adds \<open>k\<close>
  identical records, one after the other (and counted in the whole list when the
  traversal's paths are distinct). The digest list is free of duplicates when the
  extension list is (and the traversal's paths are distinct), and it has duplicates when
  the extension of some file of the tree occurs at least twice in the list.
\<close>

theorem repeated_extension_repeats_digest:
  assumes "Walk root tree (walkFn md5 exts) [] = Inr fileResults"
  shows "fileResults = concat (map (digestsOf md5 exts) (entries root tree)) \<and>
         (\<forall>p buf. digestsOf md5 exts (p, NotDir (Some buf)) =
            replicate (count_list exts (Ext p)) \<lparr>Path = p, HashType = ''MD5'', Hash = md5 buf\<rparr>) \<and>
         (\<forall>p buf. distinct (map fst (entries root tree)) \<and>
                  (p, NotDir (Some buf)) \<in> set (entries root tree) \<longrightarrow>
            count_list fileResults \<lparr>Path = p, HashType = ''MD5'', Hash = md5 buf\<rparr> =
              count_list exts (Ext p)) \<and>
         (distinct exts \<and> distinct (map fst (entries root tree)) \<longrightarrow> distinct fileResults) \<and>
         ((\<exists>p c. (p, NotDir c) \<in> set (entries root tree) \<and> 2 \<le> count_list exts (Ext p)) \<longrightarrow>
            \<not> distinct fileResults)"
proof -
  let ?es = "entries root tree"
  from assms have w: "walkCalls (walkFn md5 exts) ?es [] = Inr fileResults"
    by (simp add: Walk_def)
  from walkCalls_Inr[OF w] have ok: "\<forall>e \<in> set ?es. \<not> unreadable exts e"
    and eq: "fileResults = concat (map (digestsOf md5 exts) ?es)" by simp_all
  have one: "\<forall>p buf. digestsOf md5 exts (p, NotDir (Some buf)) =
      replicate (count_list exts (Ext p)) \<lparr>Path = p, HashType = ''MD5'', Hash = md5 buf\<rparr>"
    by (simp add: digestsOf_def)
  have cnt: "\<forall>p buf. distinct (map fst ?es) \<and> (p, NotDir (Some buf)) \<in> set ?es \<longrightarrow>
      count_list fileResults \<lparr>Path = p, HashType = ''MD5'', Hash = md5 buf\<rparr> =
        count_list exts (Ext p)"
    using eq concat_digests_count by blast
  have dist: "distinct exts \<and> distinct (map fst ?es) \<longrightarrow> distinct fileResults"
    using eq concat_digests_distinct by blast
  have rep: "(\<exists>p c. (p, NotDir c) \<in> set ?es \<and> 2 \<le> count_list exts (Ext p)) \<longrightarrow>
      \<not> distinct fileResults"
  proof
    assume "\<exists>p c. (p, NotDir c) \<in> set ?es \<and> 2 \<le> count_list exts (Ext p)"
    then obtain p c where pc: "(p, NotDir c) \<in> set ?es" "2 \<le> count_list exts (Ext p)"
      by blast
    then have "count_list exts (Ext p) \<noteq> 0" by simp
    then have "Ext p \<in> set exts" by (simp add: count_list_0_iff)
    with ok pc(1) have "c \<noteq> None" by (auto simp add: unreadable_def)
    then obtain buf where "c = Some buf" by auto
    with one have "digestsOf md5 exts (p, NotDir c) =
        replicate (count_list exts (Ext p)) \<lparr>Path = p, HashType = ''MD5'', Hash = md5 buf\<rparr>"
      by simp
    from concat_digests_repeated[OF pc(1) this pc(2)] eq
    show "\<not> distinct fileResults" by simp
  qed
  show ?thesis using eq one cnt dist rep by blast
qed

lemma sample_Walk_cc:
  "Walk ''/tmp/abc'' sampleTree (walkFn sizeDigest [''.c'', ''.h'', ''.c'']) [] =
     Inr [\<lparr>Path = ''/tmp/abc/a.c'', HashType = ''MD5'', Hash = [3]\<rparr>,
          \<lparr>Path = ''/tmp/abc/a.c'', HashType = ''MD5'', Hash = [3]\<rparr>,
          \<lparr>Path = ''/tmp/abc/docs/b.h'', HashType = ''MD5'', Hash = [0]\<rparr>]"
  by (simp add: Walk_def sample_entries sample_Ext sizeDigest_def)

theorem repeated_extension_repeats_digest_witness:
  "Walk ''/tmp/abc'' sampleTree (walkFn sizeDigest [''.c'', ''.h'', ''.c'']) [] =
     Inr [\<lparr>Path = ''/tmp/abc/a.c'', HashType = ''MD5'', Hash = [3]\<rparr>,
          \<lparr>Path = ''/tmp/abc/a.c'', HashType = ''MD5'', Hash = [3]\<rparr>,
          \<lparr>Path = ''/tmp/abc/docs/b.h'', HashType = ''MD5'', Hash = [0]\<rparr>] \<and>
   distinct (map fst (entries ''/tmp/abc'' sampleTree)) \<and>
   (''/tmp/abc/a.c'', NotDir (Some [1, 2, 3])) \<in> set (entries ''/tmp/abc'' sampleTree) \<and>
   count_list [''.c'', ''.h'', ''.c''] (Ext ''/tmp/abc/a.c'') = 2 \<and>
   count_list [\<lparr>Path = ''/tmp/abc/a.c'', HashType = ''MD5'', Hash = [3]\<rparr>,
          \<lparr>Path = ''/tmp/abc/a.c'', HashType = ''MD5'', Hash = [3]\<rparr>,
          \<lparr>Path = ''/tmp/abc/docs/b.h'', HashType = ''MD5'', Hash = [0]\<rparr>]
      \<lparr>Path = ''/tmp/abc/a.c'', HashType = ''MD5'', Hash = sizeDigest [1, 2, 3]\<rparr> = 2 \<and>
   \<not> distinct [\<lparr>Path = ''/tmp/abc/a.c'', HashType = ''MD5'', Hash = [3]\<rparr>,
          \<lparr>Path = ''/tmp/abc/a.c'', HashType = ''MD5'', Hash = [3::byte]\<rparr>,
          \<lparr>Path = ''/tmp/abc/docs/b.h'', HashType = ''MD5'', Hash = [0]\<rparr>]"
  using repeated_extension_repeats_digest [OF sample_Walk_cc]
  by (simp add: sample_Walk_cc sample_entries sample_Ext sizeDigest_def digestsOf_def)





lemma sample_processGit:
  "processGit sampleEnv (sampleItem [''.c'']) emptyWorld =
     (None,
      (sampleItem [''.c''])\<lparr>CheckoutOptions := sampleOptions\<lparr>Force := True\<rparr>\<rparr>,
      \<lparr>storeCalls =
         [((sampleItem [''.c''])\<lparr>CheckoutOptions := sampleOptions\<lparr>Force := True\<rparr>\<rparr>,
           [\<lparr>Path = ''/tmp/abc/a.c'', HashType = ''MD5'', Hash = [3]\<rparr>])],
       removedDirs = [''/tmp/abc'']\<rparr>)"
  by (simp add: processGit_def afterCopy_def sampleEnv_def sampleItem_def sampleCopy_def
      sampleOpen_def sampleCheckout_def sampleStore_def emptyWorld_def Walk_def sample_entries
      sample_Ext sizeDigest_def Let_def)

lemma sample_ReplaceAll:
  "ReplaceAll ''/tmp/abc/a.c'' ''/tmp/abc'' [] = ''/a.c''"
  "ReplaceAll ''/tmp/abc/docs/b.h'' ''/tmp/abc'' [] = ''/docs/b.h''"
  by (simp_all add: ReplaceAll_def)

lemma sample_buildFileHashes:
  "buildFileHashes sizeDigest ''/tmp/abc'' sampleTree =
     Inr [\<lparr>ToolPath = ''/a.c'', ToolHash = [3]\<rparr>, \<lparr>ToolPath = ''/docs/b.h'', ToolHash = [0]\<rparr>]"
  by (simp add: buildFileHashes_def Walk_def sample_entries sample_Ext sizeDigest_def
      fileExts_def sample_ReplaceAll)

lemma entries_under_root:
  "e \<in> set (entries root tree) \<Longrightarrow> take (length root) (fst e) = root"
proof (induction root tree arbitrary: e rule: entries.induct)
  case (1 p c)
  then show ?case by simp
next
  case (2 p kids)
  show ?case
  proof (cases "e = (p, IsDir)")
    case True
    then show ?thesis by simp
  next
    case False
    with 2(2) obtain k where k: "k \<in> set kids" "e \<in> set (entries (Join p (fst k)) (snd k))"
      by auto
    from 2(1)[OF k] have "take (length (Join p (fst k))) (fst e) = Join p (fst k)" .
    then have "take (length p) (take (length (Join p (fst k))) (fst e)) = take (length p) (Join p (fst k))"
      by simp
    then show ?thesis by (simp add: Join_def min_def)
  qed
qed




text \<open>
  Claim C5 (relative paths), evaluated on the sample repository: processGit hands the
  Storer the path under the private checkout directory, \<open>/tmp/abc/a.c\<close>, where the
  caller tool's \<open>buildFileHashes\<close> strips the directory from the same walk.
\<close>

theorem stored_path_keeps_checkout_directory:
  "processGit sampleEnv (sampleItem [''.c'']) emptyWorld =
     (None,
      (sampleItem [''.c''])\<lparr>CheckoutOptions := sampleOptions\<lparr>Force := True\<rparr>\<rparr>,
      \<lparr>storeCalls =
         [((sampleItem [''.c''])\<lparr>CheckoutOptions := sampleOptions\<lparr>Force := True\<rparr>\<rparr>,
           [\<lparr>Path = ''/tmp/abc/a.c'', HashType = ''MD5'', Hash = [3]\<rparr>])],
       removedDirs = [''/tmp/abc'']\<rparr>) \<and>
   buildFileHashes sizeDigest ''/tmp/abc'' sampleTree =
     Inr [\<lparr>ToolPath = ''/a.c'', ToolHash = [3]\<rparr>, \<lparr>ToolPath = ''/docs/b.h'', ToolHash = [0]\<rparr>]"
  using sample_processGit sample_buildFileHashes by blast





section \<open>Properties of Stage.Run\<close>

lemma slots_initial: "slots (initial w)"
  by (simp add: slots_def initial_def)

lemma fire_slots:
  assumes "slots s" "fire E a s = Some s'"
  shows "slots s'"
proof (cases a)
  case (Release i)
  with assms show ?thesis
    by (auto simp add: slots_def split: if_splits)
next
  case (Work i)
  with assms show ?thesis
    by (auto simp add: slots_def split: if_splits prod.splits)
next
  case (Post i)
  with assms show ?thesis
    by (auto simp add: slots_def split: if_splits phase.splits)
next
  case RecvInput
  with assms show ?thesis
    by (auto simp add: slots_def afterSelect_def split: if_splits list.splits)
next
  case RecvErr
  with assms show ?thesis
    by (auto simp add: slots_def afterSelect_def split: if_splits list.splits)
qed (use assms in \<open>auto simp add: slots_def split: if_splits option.splits\<close>)

lemma exec_slots: "slots s \<Longrightarrow> exec E as s = Some s' \<Longrightarrow> slots s'"
proof (induction as arbitrary: s)
  case Nil
  then show ?case by simp
next
  case (Cons a as)
  then show ?case by (auto split: option.splits dest: fire_slots)
qed

lemma fire_not_nil:
  assumes "slots s" "loc s \<noteq> Returned None" "fire E a s = Some s'"
  shows "loc s' \<noteq> Returned None"
proof (cases a)
  case DrainAcquire
  with assms show ?thesis by (auto simp add: slots_def split: if_splits)
next
  case RecvInput
  with assms show ?thesis
    by (auto simp add: afterSelect_def split: if_splits list.splits)
next
  case RecvErr
  with assms show ?thesis
    by (auto simp add: afterSelect_def split: if_splits list.splits)
next
  case (Work i)
  with assms show ?thesis by (auto split: if_splits prod.splits)
next
  case (Post i)
  with assms show ?thesis by (auto split: if_splits phase.splits)
qed (use assms in \<open>auto split: if_splits option.splits\<close>)

lemma exec_not_nil:
  "slots s \<Longrightarrow> loc s \<noteq> Returned None \<Longrightarrow> exec E as s = Some s' \<Longrightarrow> loc s' \<noteq> Returned None"
proof (induction as arbitrary: s)
  case Nil
  then show ?case by simp
next
  case (Cons a as)
  from Cons.prems(3) obtain s1 where s1: "fire E a s = Some s1" "exec E as s1 = Some s'"
    by (auto split: option.splits)
  from fire_slots[OF Cons.prems(1) s1(1)] fire_not_nil[OF Cons.prems(1,2) s1(1)] s1(2)
  show ?case by (rule Cons.IH)
qed

lemma fire_leftLoop:
  assumes "leftLoop s" "fire E a s = Some s'"
  shows "leftLoop s' \<and> (\<exists>more. input s' = input s @ more) \<and>
         length (goroutines s') \<le> length (goroutines s)"
proof (cases a)
  case (Work i)
  with assms show ?thesis by (auto simp add: leftLoop_def split: if_splits prod.splits)
next
  case (Post i)
  with assms show ?thesis by (auto simp add: leftLoop_def split: if_splits phase.splits)
qed (use assms in \<open>auto simp add: leftLoop_def split: if_splits option.splits loc.splits\<close>)

lemma exec_leftLoop:
  "leftLoop s \<Longrightarrow> exec E as s = Some s' \<Longrightarrow>
   leftLoop s' \<and> (\<exists>more. input s' = input s @ more) \<and>
   length (goroutines s') \<le> length (goroutines s)"
proof (induction as arbitrary: s)
  case Nil
  then show ?case by simp
next
  case (Cons a as)
  from Cons.prems(2) obtain s1 where s1: "fire E a s = Some s1" "exec E as s1 = Some s'"
    by (auto split: option.splits)
  from fire_leftLoop[OF Cons.prems(1) s1(1)] have l1: "leftLoop s1"
    and i1: "\<exists>more. input s1 = input s @ more"
    and g1: "length (goroutines s1) \<le> length (goroutines s)" by simp_all
  from Cons.IH[OF l1 s1(2)] have l2: "leftLoop s'"
    and i2: "\<exists>more. input s' = input s1 @ more"
    and g2: "length (goroutines s') \<le> length (goroutines s1)" by simp_all
  from i1 i2 have "\<exists>more. input s' = input s @ more" by auto
  with l2 g1 g2 show ?case by simp
qed

lemma reach_errorPending:
  "exec sampleEnv
     [Send otherItem, Send (sampleItem [''.c'']), Acquire, RecvInput, Work 0, Post 0, Acquire]
     (initial emptyWorld) = Some errorPending"
  by (simp add: initial_def errorPending_def workers_def afterSelect_def workerBody_def
      otherItem_def Git_def)


lemma reach_drainedIdle:
  "exec sampleEnv [Close, Acquire, RecvInput] (initial emptyWorld) = Some drainedIdle"
  by (simp add: initial_def drainedIdle_def workers_def afterSelect_def)



text \<open>
  Claim C2 (graceful drain), on the code: no state a run can reach has Run returned with
  nil. In the final acquisition the coordinator still holds the unit it acquired before the
  select that saw the channel closed, so \<open>sem.Acquire(ctx, workers)\<close> cannot succeed.
\<close>

theorem run_never_returns_nil:
  assumes "exec E as (initial w) = Some s"
  shows "loc s \<noteq> Returned None \<and>
         (loc s = AtDrain \<longrightarrow> 1 \<le> cur s \<and> fire E DrainAcquire s = None)"
proof -
  have sl: "slots s" using exec_slots [OF slots_initial assms] .
  have "loc (initial w) \<noteq> Returned None" by (simp add: initial_def)
  from exec_not_nil [OF slots_initial this assms] have "loc s \<noteq> Returned None" .
  moreover have "loc s = AtDrain \<longrightarrow> 1 \<le> cur s \<and> fire E DrainAcquire s = None"
    using sl by (auto simp add: slots_def)
  ultimately show ?thesis by simp
qed

theorem run_never_returns_nil_witness:
  "exec sampleEnv [Close, Acquire, RecvInput] (initial emptyWorld) = Some drainedIdle \<and>
   loc drainedIdle = AtDrain \<and> goroutines drainedIdle = [] \<and> ctxErr drainedIdle = None \<and>
   fire sampleEnv DrainAcquire drainedIdle = None"
proof -
  have "loc drainedIdle = AtDrain" "goroutines drainedIdle = []" "ctxErr drainedIdle = None"
    by (simp_all add: drainedIdle_def)
  with run_never_returns_nil [OF reach_drainedIdle] reach_drainedIdle show ?thesis by blast
qed

text \<open>
  Claim C1 (worker errors are not fatal), on the code: when the select takes an error from
  \<open>wErr\<close> the coordinator logs it and, \<open>ok\<close> being false, leaves the loop for the final
  acquisition. From then on, under any schedule, it is in the final acquisition or has
  returned, the items on the input channel stay there, and no goroutine is launched.
\<close>

theorem worker_error_ends_admission:
  assumes "loc s = AtSelect" "wErr s = err # rest"
  shows "fire E RecvErr s = Some (s\<lparr>wErr := rest, logged := logged s @ [err], loc := AtDrain\<rparr>) \<and>
         (\<forall>as s'. exec E as (s\<lparr>wErr := rest, logged := logged s @ [err], loc := AtDrain\<rparr>) = Some s'
            \<longrightarrow> (loc s' = AtDrain \<or> (\<exists>r. loc s' = Returned r)) \<and>
                (\<exists>more. input s' = input s @ more) \<and>
                length (goroutines s') \<le> length (goroutines s))"
proof -
  let ?s1 = "s\<lparr>wErr := rest, logged := logged s @ [err], loc := AtDrain\<rparr>"
  have step: "fire E RecvErr s = Some ?s1"
    using assms by (simp add: afterSelect_def)
  have left: "leftLoop ?s1" by (simp add: leftLoop_def)
  have after: "(loc s' = AtDrain \<or> (\<exists>r. loc s' = Returned r)) \<and>
      (\<exists>more. input s' = input s @ more) \<and> length (goroutines s') \<le> length (goroutines s)"
    if "exec E as ?s1 = Some s'" for as s'
  proof -
    from exec_leftLoop [OF left that] have l: "leftLoop s'"
      and i: "\<exists>more. input s' = input ?s1 @ more"
      and g: "length (goroutines s') \<le> length (goroutines ?s1)" by simp_all
    from l have "loc s' = AtDrain \<or> (\<exists>r. loc s' = Returned r)"
      by (cases "loc s'") (simp_all add: leftLoop_def)
    with i g show ?thesis by simp
  qed
  from step after show ?thesis by blast
qed

theorem worker_error_ends_admission_witness:
  "exec sampleEnv
     [Send otherItem, Send (sampleItem [''.c'']), Acquire, RecvInput, Work 0, Post 0, Acquire]
     (initial emptyWorld) = Some errorPending \<and>
   loc errorPending = AtSelect \<and> wErr errorPending = [UnknownRepositoryType] \<and>
   input errorPending = [sampleItem [''.c'']] \<and>
   fire sampleEnv RecvErr errorPending =
     Some (errorPending\<lparr>wErr := [], logged := logged errorPending @ [UnknownRepositoryType],
                        loc := AtDrain\<rparr>)"
proof -
  have l: "loc errorPending = AtSelect" and e: "wErr errorPending = [UnknownRepositoryType]"
    and i: "input errorPending = [sampleItem [''.c'']]"
    by (simp_all add: errorPending_def)
  from worker_error_ends_admission [OF l e, of sampleEnv] reach_errorPending l e i
  show ?thesis by blast
qed

text \<open>
  Claim C9, as stated, fails: with the channel closed and one goroutine still processing,
  a cancellation during the final acquisition makes Run return \<open>context.Canceled\<close> while
  that goroutine is still at work.
\<close>

theorem drain_abandons_workers_counterexample:
  "exec sampleEnv
     [Send (sampleItem [''.c'']), Close, Acquire, RecvInput, Acquire, RecvInput,
      Cancel ContextCanceled, DrainFails]
     (initial emptyWorld) = Some (draining\<lparr>loc := Returned (Some ContextCanceled)\<rparr>) \<and>
   goroutines (draining\<lparr>loc := Returned (Some ContextCanceled)\<rparr>) =
     [(sampleItem [''.c''], Processing)]"
  by (simp add: initial_def draining_def workers_def afterSelect_def)

text \<open>
  Claim C9, amended. The final acquisition is made with the run's context. While the
  context is not cancelled it cannot return the context's error; once the context is
  cancelled it returns that error, whatever goroutines are still running. The coordinator
  leaves the final acquisition in no other way than with the context's error or with all
  units of the semaphore free.
\<close>

theorem drain_returns_on_cancellation:
  assumes "loc s = AtDrain"
  shows "(ctxErr s = None \<longrightarrow> fire E DrainFails s = None) \<and>
         (\<forall>e. ctxErr s = Some e \<longrightarrow>
            fire E DrainFails s = Some (s\<lparr>loc := Returned (Some e)\<rparr>)) \<and>
         (\<forall>a s'. fire E a s = Some s' \<and> loc s' \<noteq> AtDrain \<longrightarrow>
            (a = DrainFails \<and> (\<exists>e. ctxErr s = Some e \<and> s' = s\<lparr>loc := Returned (Some e)\<rparr>)) \<or>
            (a = DrainAcquire \<and> cur s = 0))"
proof -
  have a: "ctxErr s = None \<longrightarrow> fire E DrainFails s = None" using assms by simp
  have b: "\<forall>e. ctxErr s = Some e \<longrightarrow> fire E DrainFails s = Some (s\<lparr>loc := Returned (Some e)\<rparr>)"
    using assms by simp
  have c: "(a = DrainFails \<and> (\<exists>e. ctxErr s = Some e \<and> s' = s\<lparr>loc := Returned (Some e)\<rparr>)) \<or>
      (a = DrainAcquire \<and> cur s = 0)"
    if "fire E a s = Some s'" "loc s' \<noteq> AtDrain" for a s'
  proof (cases a)
    case (Work i)
    with that assms show ?thesis by (auto split: if_splits prod.splits)
  next
    case (Post i)
    with that assms show ?thesis by (auto split: if_splits phase.splits)
  qed (use that assms in \<open>auto split: if_splits option.splits\<close>)
  from a b c show ?thesis by blast
qed

theorem drain_returns_on_cancellation_witness:
  "loc draining = AtDrain \<and> ctxErr draining = Some ContextCanceled \<and>
   goroutines draining = [(sampleItem [''.c''], Processing)] \<and>
   fire sampleEnv DrainFails draining = Some (draining\<lparr>loc := Returned (Some ContextCanceled)\<rparr>)"
proof -
  have l: "loc draining = AtDrain" and c: "ctxErr draining = Some ContextCanceled"
    and g: "goroutines draining = [(sampleItem [''.c''], Processing)]"
    by (simp_all add: draining_def)
  from drain_returns_on_cancellation [OF l, of sampleEnv] l c g show ?thesis by blast
qed

end
